theory Spec2Isabelle
  imports Main "HOL-Library.Word" "HOL-Library.Signed_Division" "HOL-Library.Multiset"
begin

section \<open>Machine integers of the program\<close>

text \<open>
  The program is C++ on an LP64 platform: \<^verbatim>\<open>int\<close> is a 32-bit two's complement
  integer, \<^verbatim>\<open>size_t\<close> is a 64-bit unsigned integer. An \<^verbatim>\<open>int\<close> is a 32-bit word read
  by \<open>sint\<close>; a \<^verbatim>\<open>size_t\<close> holding the size of a vector is the natural number
  \<open>length data\<close> (a vector's size always fits its \<^verbatim>\<open>size_t\<close>).

  Signed overflow of \<^verbatim>\<open>int\<close> arithmetic, an index outside the vector and a division
  by zero are undefined behaviour in C++: each is a branch of the model that returns an
  \<open>error\<close>. The conversion of a \<^verbatim>\<open>size_t\<close> to \<^verbatim>\<open>int\<close> keeps the low 32 bits.
\<close>

type_synonym cint = "32 word"

definition INT_MIN :: cint where
  "INT_MIN = - 2147483648"

definition INT_MAX :: cint where
  "INT_MAX = 2147483647"

datatype error = DivisionByZero | SignedOverflow | OutOfBounds

definition in_int :: "int \<Rightarrow> bool" where
  "in_int k \<longleftrightarrow> - 2147483648 \<le> k \<and> k \<le> 2147483647"

text \<open>\<^verbatim>\<open>a + b\<close> and \<^verbatim>\<open>a * b\<close> on \<^verbatim>\<open>int\<close> operands.\<close>

definition add_int :: "cint \<Rightarrow> cint \<Rightarrow> error + cint" where
  "add_int a b = (if in_int (sint a + sint b) then Inr (a + b) else Inl SignedOverflow)"

definition mul_int :: "cint \<Rightarrow> cint \<Rightarrow> error + cint" where
  "mul_int a b = (if in_int (sint a * sint b) then Inr (a * b) else Inl SignedOverflow)"

text \<open>The conversions between \<^verbatim>\<open>int\<close> and \<^verbatim>\<open>size_t\<close>.\<close>

definition size_t_of_int :: "cint \<Rightarrow> nat" where
  "size_t_of_int x = nat (sint x mod 18446744073709551616)"

definition int_of_size_t :: "nat \<Rightarrow> cint" where
  "int_of_size_t n = word_of_nat n"

section \<open>The scan of one element\<close>

text \<open>
  The three scanning loops (\<^verbatim>\<open>linearExecution\<close>, \<^verbatim>\<open>processSectionWithMutex\<close>,
  \<^verbatim>\<open>processSectionWithCAS\<close>) have the same body:
  \<^verbatim>\<open>if (value % 5 == 0) { count++; if (value > maxValue) maxValue = value; }\<close>
  The remainder of C++ truncates towards zero (\<open>smod\<close>). The accumulator is the pair
  of the running count (\<open>cnt\<close>) and the running maximum.
\<close>

definition visit :: "cint \<Rightarrow> cint \<times> cint \<Rightarrow> error + cint \<times> cint" where
  "visit v acc =
     (case acc of (cnt, maxValue) \<Rightarrow>
        if sint v smod 5 = 0 then
          (if cnt = INT_MAX then Inl SignedOverflow
           else Inr (cnt + 1, if maxValue <s v then v else maxValue))
        else Inr (cnt, maxValue))"

section \<open>linearExecution\<close>

fun scan_values :: "cint list \<Rightarrow> cint \<times> cint \<Rightarrow> error + cint \<times> cint" where
  "scan_values [] acc = Inr acc"
| "scan_values (v # vs) acc =
     (case visit v acc of Inl e \<Rightarrow> Inl e | Inr acc' \<Rightarrow> scan_values vs acc')"

definition linearExecution :: "cint list \<Rightarrow> error + cint \<times> cint" where
  "linearExecution data = scan_values data (0, INT_MIN)"

section \<open>The scan of one section\<close>

text \<open>
  \<^verbatim>\<open>data[i]\<close> with an \<^verbatim>\<open>int\<close> index: the index is converted to \<^verbatim>\<open>size_t\<close>, so a
  negative index is as far outside the vector as one past its size.
\<close>

definition element_at :: "cint list \<Rightarrow> int \<Rightarrow> error + cint" where
  "element_at data i =
     (if 0 \<le> i \<and> i < int (length data) then Inr (data ! nat i) else Inl OutOfBounds)"

fun scan_indices :: "cint list \<Rightarrow> int list \<Rightarrow> cint \<times> cint \<Rightarrow> error + cint \<times> cint" where
  "scan_indices data [] acc = Inr acc"
| "scan_indices data (i # js) acc =
     (case element_at data i of
        Inl e \<Rightarrow> Inl e
      | Inr v \<Rightarrow> (case visit v acc of Inl e \<Rightarrow> Inl e | Inr acc' \<Rightarrow> scan_indices data js acc'))"

text \<open>
  The indices \<^verbatim>\<open>for (int i = start; i < end; ++i)\<close> visits. The increment cannot
  overflow, since \<open>i < end\<close> holds before it.
\<close>

definition section_indices :: "cint \<Rightarrow> cint \<Rightarrow> int list" where
  "section_indices start end = [sint start..sint end - 1]"

text \<open>
  The local phase of \<^verbatim>\<open>processSectionWithMutex\<close> and of \<^verbatim>\<open>processSectionWithCAS\<close>:
  the count and the maximum of the section, from \<open>(0, INT_MIN)\<close>.
\<close>

definition scan_section :: "cint \<Rightarrow> cint \<Rightarrow> cint list \<Rightarrow> error + cint \<times> cint" where
  "scan_section start end data = scan_indices data (section_indices start end) (0, INT_MIN)"

section \<open>The sections of the parallel reducers\<close>

text \<open>
  \<^verbatim>\<open>int chunkSize = data.size() / numThreads;\<close> The division is one of \<^verbatim>\<open>size_t\<close>:
  \<^verbatim>\<open>numThreads\<close> is converted to \<^verbatim>\<open>size_t\<close>, and the quotient is converted back to
  \<^verbatim>\<open>int\<close>. \<open>len\<close> is \<^verbatim>\<open>data.size()\<close>.
\<close>

definition chunk_size :: "nat \<Rightarrow> cint \<Rightarrow> error + cint" where
  "chunk_size len numThreads =
     (if size_t_of_int numThreads = 0 then Inl DivisionByZero
      else Inr (int_of_size_t (len div size_t_of_int numThreads)))"

text \<open>
  \<^verbatim>\<open>int start = t * chunkSize;\<close>
  \<^verbatim>\<open>int end = (t == numThreads - 1) ? data.size() : start + chunkSize;\<close>
\<close>

definition section_bounds :: "nat \<Rightarrow> cint \<Rightarrow> cint \<Rightarrow> cint \<Rightarrow> error + cint \<times> cint" where
  "section_bounds len numThreads chunkSize t =
     (case mul_int t chunkSize of
        Inl e \<Rightarrow> Inl e
      | Inr start \<Rightarrow>
          if t = numThreads - 1 then Inr (start, int_of_size_t len)
          else (case add_int start chunkSize of
                  Inl e \<Rightarrow> Inl e
                | Inr end \<Rightarrow> Inr (start, end)))"

text \<open>The values of \<open>t\<close> in \<^verbatim>\<open>for (int t = 0; t < numThreads; ++t)\<close>.\<close>

definition thread_ids :: "cint \<Rightarrow> cint list" where
  "thread_ids numThreads = map word_of_nat [0..<nat (sint numThreads)]"

fun traverse :: "('a \<Rightarrow> error + 'b) \<Rightarrow> 'a list \<Rightarrow> error + 'b list" where
  "traverse f [] = Inr []"
| "traverse f (x # xs) =
     (case f x of
        Inl e \<Rightarrow> Inl e
      | Inr y \<Rightarrow> (case traverse f xs of Inl e \<Rightarrow> Inl e | Inr ys \<Rightarrow> Inr (y # ys)))"

definition spawn_sections :: "nat \<Rightarrow> cint \<Rightarrow> error + (cint \<times> cint) list" where
  "spawn_sections len numThreads =
     (case chunk_size len numThreads of
        Inl e \<Rightarrow> Inl e
      | Inr chunkSize \<Rightarrow> traverse (section_bounds len numThreads chunkSize) (thread_ids numThreads))"

text \<open>
  Every thread scans its section without touching shared state; \<open>local_results\<close> is the
  list of the threads' local counts and maxima, in the order the threads are created.
\<close>

definition local_results :: "cint list \<Rightarrow> cint \<Rightarrow> error + (cint \<times> cint) list" where
  "local_results data numThreads =
     (case spawn_sections (length data) numThreads of
        Inl e \<Rightarrow> Inl e
      | Inr secs \<Rightarrow> traverse (\<lambda>(start, end). scan_section start end data) secs)"

section \<open>parallelWithMutex\<close>

text \<open>
  The critical section of \<^verbatim>\<open>processSectionWithMutex\<close>:
  \<^verbatim>\<open>localCount += count; if (maxValue > localMax) localMax = maxValue;\<close>
  where \<open>(cnt, maxValue)\<close> is the thread's own result and \<open>(localCount, localMax)\<close> the
  shared accumulator.
\<close>

definition merge_locked :: "cint \<times> cint \<Rightarrow> cint \<times> cint \<Rightarrow> error + cint \<times> cint" where
  "merge_locked own shared =
     (let cnt = fst own; maxValue = snd own; localCount = fst shared; localMax = snd shared
      in case add_int localCount cnt of
           Inl e \<Rightarrow> Inl e
         | Inr c \<Rightarrow> Inr (c, if localMax <s maxValue then maxValue else localMax))"

fun lock_merges :: "(cint \<times> cint) list \<Rightarrow> cint \<times> cint \<Rightarrow> error + cint \<times> cint" where
  "lock_merges [] shared = Inr shared"
| "lock_merges (own # rest) shared =
     (case merge_locked own shared of Inl e \<Rightarrow> Inl e | Inr shared' \<Rightarrow> lock_merges rest shared')"

text \<open>
  The mutex makes the critical sections of the threads run one after the other, in some
  order: \<open>order\<close> lists the threads in the order in which they take the lock, a
  permutation of \<open>[0..<numThreads]\<close>.
\<close>

definition lock_order :: "nat list \<Rightarrow> cint \<Rightarrow> bool" where
  "lock_order order numThreads \<longleftrightarrow> sort order = [0..<nat (sint numThreads)]"

definition parallelWithMutex :: "nat list \<Rightarrow> cint list \<Rightarrow> cint \<Rightarrow> error + cint \<times> cint" where
  "parallelWithMutex order data numThreads =
     (case local_results data numThreads of
        Inl e \<Rightarrow> Inl e
      | Inr locals \<Rightarrow> lock_merges (map (\<lambda>w. locals ! w) order) (0, INT_MIN))"

section \<open>parallelWithCAS\<close>

text \<open>
  The shared part of \<^verbatim>\<open>processSectionWithCAS\<close> is a sequence of atomic operations:
  \<^verbatim>\<open>
  atomicCount.fetch_add(localCount);                          // FetchAdd
  int currentMax = atomicMax.load();                          // Load
  while (localMax > currentMax &&
         !atomicMax.compare_exchange_weak(currentMax, localMax)) {   // Loop currentMax
      currentMax = atomicMax.load();                          // Load
  }                                                           // Finished
  \<close>
  A thread is at one of these points; the threads' atomic operations interleave.
  \<^verbatim>\<open>fetch_add\<close> on an atomic \<^verbatim>\<open>int\<close> wraps around. \<^verbatim>\<open>compare_exchange_weak\<close> may
  fail although the value is the expected one (a spurious failure); implementations
  are asked not to do so for ever, and \<open>spurious\<close> is the number of spurious failures
  the execution still has ahead, any natural number (0: the exchange is a strong one).
\<close>

datatype pc = FetchAdd | Load | Loop cint | Finished

record cas_state =
  atomicCount :: cint
  atomicMax :: cint
  pcs :: "pc list"
  spurious :: nat

text \<open>
  One atomic operation of thread \<open>w\<close>, whose local result is \<open>locals ! w\<close>; \<open>fail\<close> says
  whether a weak exchange that could succeed fails spuriously.
\<close>

definition step_thread :: "(cint \<times> cint) list \<Rightarrow> nat \<times> bool \<Rightarrow> cas_state \<Rightarrow> cas_state" where
  "step_thread locals a s =
     (let w = fst a; fail = snd a; localCount = fst (locals ! w); localMax = snd (locals ! w)
      in if length (pcs s) \<le> w then s
         else
           (case pcs s ! w of
              FetchAdd \<Rightarrow>
                s\<lparr>atomicCount := atomicCount s + localCount, pcs := (pcs s)[w := Load]\<rparr>
            | Load \<Rightarrow> s\<lparr>pcs := (pcs s)[w := Loop (atomicMax s)]\<rparr>
            | Loop currentMax \<Rightarrow>
                if \<not> currentMax <s localMax then s\<lparr>pcs := (pcs s)[w := Finished]\<rparr>
                else if atomicMax s \<noteq> currentMax then s\<lparr>pcs := (pcs s)[w := Load]\<rparr>
                else if fail \<and> 0 < spurious s
                  then s\<lparr>pcs := (pcs s)[w := Load], spurious := spurious s - 1\<rparr>
                else s\<lparr>atomicMax := localMax, pcs := (pcs s)[w := Finished]\<rparr>
            | Finished \<Rightarrow> s))"

definition run :: "(cint \<times> cint) list \<Rightarrow> (nat \<times> bool) list \<Rightarrow> cas_state \<Rightarrow> cas_state" where
  "run locals sched s = fold (step_thread locals) sched s"

definition init_state :: "(cint \<times> cint) list \<Rightarrow> nat \<Rightarrow> cas_state" where
  "init_state locals n =
     \<lparr>atomicCount = 0, atomicMax = INT_MIN, pcs = replicate (length locals) FetchAdd,
      spurious = n\<rparr>"

definition joined :: "cas_state \<Rightarrow> bool" where
  "joined s \<longleftrightarrow> list_all (\<lambda>p. p = Finished) (pcs s)"

text \<open>
  \<open>sched\<close> is the interleaving: the threads in the order of their atomic operations. The
  joins return when every thread has finished; a schedule that leaves a thread
  unfinished is not an execution of \<^verbatim>\<open>parallelWithCAS\<close>, and gives \<open>None\<close>.
\<close>

definition parallelWithCAS ::
  "(nat \<times> bool) list \<Rightarrow> nat \<Rightarrow> cint list \<Rightarrow> cint \<Rightarrow> (error + cint \<times> cint) option" where
  "parallelWithCAS sched n data numThreads =
     (case local_results data numThreads of
        Inl e \<Rightarrow> Some (Inl e)
      | Inr locals \<Rightarrow>
          (let s = run locals sched (init_state locals n)
           in if joined s then Some (Inr (atomicCount s, atomicMax s)) else None))"

section \<open>Notions used to state the properties\<close>

text \<open>Divisibility by 5 of the value a word stands for, and the signed maximum.\<close>

definition div5 :: "cint \<Rightarrow> bool" where
  "div5 v \<longleftrightarrow> 5 dvd sint v"

definition smax :: "cint \<Rightarrow> cint \<Rightarrow> cint" where
  "smax a b = (if a <s b then b else a)"

definition bound :: "nat \<Rightarrow> nat \<Rightarrow> nat \<Rightarrow> nat" where
  "bound len n t = (if t = n then len else t * (len div n))"

definition slice :: "cint list \<Rightarrow> nat \<Rightarrow> nat \<Rightarrow> cint list" where
  "slice data n t = map ((!) data) [bound (length data) n t..<bound (length data) n (Suc t)]"

definition greatest_of :: "cint set \<Rightarrow> cint \<Rightarrow> bool" where
  "greatest_of S x \<longleftrightarrow> x \<in> S \<and> (\<forall>v\<in>S. sint v \<le> sint x)"

definition local_of :: "cint list \<Rightarrow> cint \<times> cint" where
  "local_of vs = (word_of_nat (length (filter div5 vs)), fold (\<lambda>v a. smax a v) (filter div5 vs) INT_MIN)"

definition counted :: "(cint \<times> cint) list \<Rightarrow> pc list \<Rightarrow> cint" where
  "counted locals ps = (\<Sum>w = 0..<length locals. if ps ! w = FetchAdd then 0 else fst (locals ! w))"

definition pc_ok :: "(cint \<times> cint) list \<Rightarrow> cint \<Rightarrow> nat \<Rightarrow> pc \<Rightarrow> bool" where
  "pc_ok locals m w p =
     (case p of
        Loop c \<Rightarrow> sint c \<le> sint m
      | Finished \<Rightarrow> sint (snd (locals ! w)) \<le> sint m
      | _ \<Rightarrow> True)"

definition cas_inv :: "(cint \<times> cint) list \<Rightarrow> cas_state \<Rightarrow> bool" where
  "cas_inv locals s \<longleftrightarrow>
     length (pcs s) = length locals
     \<and> atomicCount s = counted locals (pcs s)
     \<and> atomicMax s \<in> insert INT_MIN (snd ` set locals)
     \<and> (\<forall>w<length locals. pc_ok locals (atomicMax s) w (pcs s ! w))"

definition thread_alone :: "nat \<Rightarrow> (nat \<times> bool) list" where
  "thread_alone w = [(w, False), (w, False), (w, False)]"

definition one_by_one :: "nat \<Rightarrow> (nat \<times> bool) list" where
  "one_by_one n = concat (map thread_alone [0..<n])"

definition unfinished :: "cas_state \<Rightarrow> nat" where
  "unfinished s = sum_list (map (\<lambda>p. if p = Finished then 0 else 1) (pcs s))"

definition weight :: "cint \<Rightarrow> pc \<Rightarrow> nat" where
  "weight m p = (case p of FetchAdd \<Rightarrow> 3 | Load \<Rightarrow> 2 | Loop c \<Rightarrow> (if c = m then 1 else 3) | Finished \<Rightarrow> 0)"

definition weights :: "cas_state \<Rightarrow> nat" where
  "weights s = sum_list (map (weight (atomicMax s)) (pcs s))"

definition cas_steps :: "(cint \<times> cint) list \<Rightarrow> (cas_state \<times> cas_state) set" where
  "cas_steps locals =
     {(s', s). \<exists>w fail. w < length (pcs s) \<and> pcs s ! w \<noteq> Finished
                 \<and> s' = step_thread locals (w, fail) s}"

section \<open>Facts about the machine integers\<close>

lemma smod5: "(k::int) smod 5 = 0 \<longleftrightarrow> 5 dvd k"
  by (auto simp add: signed_modulo_int_def sgn_if)

lemma in_int_sint: "in_int (sint (x::cint))"
  using sint_ge[of x] sint_lt[of x] by (simp add: in_int_def)

lemma sint_eq_iff: "sint (a::cint) = sint b \<longleftrightarrow> a = b"
proof
  assume "sint a = sint b"
  then have "(word_of_int (sint a) :: cint) = word_of_int (sint b)" by simp
  then show "a = b" by simp
qed simp

lemma sint_of_int_ok: "in_int k \<Longrightarrow> sint (word_of_int k :: cint) = k"
  by (simp add: sint_sbintrunc' in_int_def signed_take_bit_int_eq_self)

lemma sint_add_ok: "in_int (sint a + sint b) \<Longrightarrow> sint (a + b :: cint) = sint a + sint b"
  by (simp add: sint_word_ariths in_int_def signed_take_bit_int_eq_self)

lemma sint_mul_ok: "in_int (sint a * sint b) \<Longrightarrow> sint (a * b :: cint) = sint a * sint b"
  by (simp add: sint_word_ariths in_int_def signed_take_bit_int_eq_self)

lemma sint_INT_MAX: "sint INT_MAX = 2147483647"
  by (simp add: INT_MAX_def)

lemma sint_INT_MIN: "sint INT_MIN = - 2147483648"
  by (simp add: INT_MIN_def)

lemma sint_of_nat_ok: "n \<le> 2147483647 \<Longrightarrow> sint (word_of_nat n :: cint) = int n"
  using sint_of_int_ok[of "int n"] by (simp add: in_int_def)

lemma sint_succ: "c \<noteq> INT_MAX \<Longrightarrow> sint (c + 1 :: cint) = sint c + 1"
proof -
  assume "c \<noteq> INT_MAX"
  then have "sint c \<noteq> 2147483647"
    using sint_eq_iff[of c INT_MAX] by (simp add: sint_INT_MAX)
  then have "in_int (sint c + sint (1::cint))"
    using in_int_sint[of c] by (simp add: in_int_def)
  then show ?thesis using sint_add_ok[of c 1] by simp
qed

lemma sint_smax: "sint (smax a b) = max (sint a) (sint b)"
  by (simp add: smax_def word_sless_alt max_def)

section \<open>The scans as folds\<close>

lemma visit_eq:
  "visit v (c, m) =
     (if div5 v then (if sint c < 2147483647 then Inr (c + 1, smax m v) else Inl SignedOverflow)
      else Inr (c, m))"
  using in_int_sint[of c] sint_eq_iff[of c INT_MAX]
  by (auto simp add: visit_def smod5 div5_def smax_def sint_INT_MAX in_int_def)

lemma scan_values_eq:
  "scan_values vs (c, m) =
     (if sint c + int (length (filter div5 vs)) \<le> 2147483647
      then Inr (c + word_of_nat (length (filter div5 vs)),
                fold (\<lambda>v a. smax a v) (filter div5 vs) m)
      else Inl SignedOverflow)"
proof (induction vs arbitrary: c m)
  case Nil
  show ?case using in_int_sint[of c] by (simp add: in_int_def)
next
  case (Cons v vs)
  show ?case
  proof (cases "div5 v \<and> sint c < 2147483647")
    case True
    then have "sint (c + 1) = sint c + 1"
      using sint_succ[of c] sint_eq_iff[of c INT_MAX] by (auto simp add: sint_INT_MAX)
    then show ?thesis using True by (simp add: visit_eq Cons.IH)
  next
    case False
    then show ?thesis
      using in_int_sint[of c] by (auto simp add: visit_eq Cons.IH in_int_def)
  qed
qed

lemma Max_insert_max:
  "finite S \<Longrightarrow> Max (insert (max a b) S) = Max (insert (a::int) (insert b S))"
  by (cases "S = {}") (simp_all add: max.assoc)

lemma sint_fold_smax:
  "sint (fold (\<lambda>v a. smax a v) vs m) = Max (insert (sint m) (sint ` set vs))"
proof (induction vs arbitrary: m)
  case Nil
  show ?case by simp
next
  case (Cons v vs)
  show ?case
    using Max_insert_max[of "sint ` set vs" "sint m" "sint v"]
    by (simp add: Cons.IH sint_smax)
qed

lemma Max_insert_lower:
  "finite S \<Longrightarrow> S \<noteq> {} \<Longrightarrow> \<forall>x\<in>S. (b::int) \<le> x \<Longrightarrow> Max (insert b S) = Max S"
  by (simp add: max_absorb2)

lemma sint_ge_INT_MIN: "sint INT_MIN \<le> sint (v::cint)"
  using in_int_sint[of v] by (simp add: sint_INT_MIN in_int_def)

lemma linearExecution_eq:
  "linearExecution data =
     (if length (filter div5 data) \<le> 2147483647
      then Inr (word_of_nat (length (filter div5 data)),
                fold (\<lambda>v a. smax a v) (filter div5 data) INT_MIN)
      else Inl SignedOverflow)"
  by (simp add: linearExecution_def scan_values_eq)

lemma sint_greatest:
  "sint (fold (\<lambda>v a. smax a v) (filter div5 vs) INT_MIN) =
     (if \<exists>v\<in>set vs. div5 v then Max (sint ` {v \<in> set vs. div5 v}) else sint INT_MIN)"
proof (cases "\<exists>v\<in>set vs. div5 v")
  case True
  then have ne: "sint ` {v \<in> set vs. div5 v} \<noteq> {}" by auto
  have "Max (insert (sint INT_MIN) (sint ` {v \<in> set vs. div5 v})) = Max (sint ` {v \<in> set vs. div5 v})"
    by (rule Max_insert_lower) (use ne sint_ge_INT_MIN in auto)
  then show ?thesis using True by (simp add: sint_fold_smax)
next
  case False
  then have "filter div5 vs = []" by (auto simp add: filter_empty_conv)
  then show ?thesis using False by simp
qed

lemma upto_map_int: "[int s..int e - 1] = map int [s..<e]"
proof (induction e)
  case 0
  show ?case by simp
next
  case (Suc e)
  show ?case
  proof (cases "s \<le> e")
    case True
    then have "[int s..int (Suc e) - 1] = [int s..int e - 1] @ [int e]"
      using upto_rec2[of "int s" "int e"] by simp
    then show ?thesis using True Suc by simp
  next
    case False
    then show ?thesis by simp
  qed
qed

lemma scan_indices_map:
  "\<forall>i\<in>set js. i < length data \<Longrightarrow>
   scan_indices data (map int js) acc = scan_values (map ((!) data) js) acc"
proof (induction js arbitrary: acc)
  case Nil
  show ?case by simp
next
  case (Cons i js)
  then show ?case by (simp add: element_at_def split: sum.splits)
qed

lemma section_indices_of_nat:
  "s \<le> 2147483647 \<Longrightarrow> e \<le> 2147483647 \<Longrightarrow>
   section_indices (word_of_nat s) (word_of_nat e) = map int [s..<e]"
  by (simp add: section_indices_def sint_of_nat_ok upto_map_int)

lemma scan_section_of_nat:
  assumes "s \<le> 2147483647" "e \<le> 2147483647" "e \<le> length data"
  shows "scan_section (word_of_nat s) (word_of_nat e) data =
           scan_values (map ((!) data) [s..<e]) (0, INT_MIN)"
proof -
  have "\<forall>i\<in>set [s..<e]. i < length data" using assms(3) by simp
  then show ?thesis
    using assms(1,2) by (simp add: scan_section_def section_indices_of_nat scan_indices_map)
qed

lemma traverse_map:
  "\<forall>x\<in>set xs. f x = Inr (g x) \<Longrightarrow> traverse f xs = Inr (map g xs)"
  by (induction xs) simp_all

lemma in_int_of_nat: "n \<le> 2147483647 \<Longrightarrow> in_int (int n)"
  by (simp add: in_int_def)

lemma traverse_comp: "traverse f (map g xs) = traverse (f \<circ> g) xs"
  by (induction xs) (simp_all split: sum.splits)

lemma size_t_of_int_pos: "0 < sint T \<Longrightarrow> size_t_of_int T = nat (sint T)"
proof -
  assume "0 < sint T"
  then have "sint T mod 18446744073709551616 = sint T"
    using in_int_sint[of T] by (simp add: in_int_def)
  then show ?thesis by (simp add: size_t_of_int_def)
qed

lemma chunk_size_pos:
  "0 < sint T \<Longrightarrow> chunk_size len T = Inr (word_of_nat (len div nat (sint T)))"
  by (simp add: chunk_size_def size_t_of_int_pos int_of_size_t_def)

lemma bound_mono:
  assumes "0 < n" "t < n"
  shows "bound len n t \<le> bound len n (Suc t)"
proof (cases "Suc t = n")
  case True
  have "t * (len div n) \<le> n * (len div n)" using assms(2) by simp
  also have "\<dots> \<le> len" by simp
  finally show ?thesis using True assms(2) by (simp add: bound_def)
next
  case False
  then show ?thesis using assms(2) by (simp add: bound_def)
qed

lemma bound_le_len:
  assumes "0 < n" "t \<le> n"
  shows "bound len n t \<le> len"
proof (cases "t = n")
  case True
  then show ?thesis by (simp add: bound_def)
next
  case False
  have "t * (len div n) \<le> n * (len div n)" using assms(2) by simp
  also have "\<dots> \<le> len" by simp
  finally show ?thesis using False by (simp add: bound_def)
qed

lemma thread_id_eq_last:
  assumes "0 < sint T" "t < nat (sint T)"
  shows "(word_of_nat t :: cint) = T - 1 \<longleftrightarrow> Suc t = nat (sint T)"
proof -
  have r: "sint T \<le> 2147483647" using in_int_sint[of T] by (simp add: in_int_def)
  have "in_int (sint T - sint (1::cint))" using assms(1) r by (simp add: in_int_def)
  then have 1: "sint (T - 1) = sint T - 1"
    by (simp add: sint_word_ariths in_int_def signed_take_bit_int_eq_self)
  have "t \<le> 2147483647" using assms(2) r by linarith
  then have 2: "sint (word_of_nat t :: cint) = int t" by (rule sint_of_nat_ok)
  show ?thesis using 1 2 sint_eq_iff[of "word_of_nat t" "T - 1"] assms by auto
qed

lemma section_bounds_ok:
  assumes "len \<le> 2147483647" "0 < sint T" "t < nat (sint T)"
  shows "section_bounds len T (word_of_nat (len div nat (sint T))) (word_of_nat t) =
           Inr (word_of_nat (bound len (nat (sint T)) t),
                word_of_nat (bound len (nat (sint T)) (Suc t)))"
proof -
  let ?n = "nat (sint T)"
  let ?c = "len div ?n"
  have n: "0 < ?n" using assms(2) by simp
  have r: "sint T \<le> 2147483647" using in_int_sint[of T] by (simp add: in_int_def)
  have "t \<le> 2147483647" using assms(3) r by linarith
  then have t: "sint (word_of_nat t :: cint) = int t" by (rule sint_of_nat_ok)
  have cle: "?c \<le> len" by (rule div_le_dividend)
  have "?c \<le> 2147483647" using cle assms(1) by linarith
  then have c: "sint (word_of_nat ?c :: cint) = int ?c" by (rule sint_of_nat_ok)
  have b1: "bound len ?n t = t * ?c" using assms(3) by (simp add: bound_def)
  have tc: "t * ?c \<le> len" using bound_le_len[OF n, of t len] assms(3) b1 by simp
  have "t * ?c \<le> 2147483647" using tc assms(1) by linarith
  then have "in_int (int (t * ?c))" by (rule in_int_of_nat)
  then have "in_int (int t * int ?c)" by (simp only: of_nat_mult)
  then have "in_int (sint (word_of_nat t :: cint) * sint (word_of_nat ?c :: cint))"
    by (simp only: t c)
  then have m: "mul_int (word_of_nat t) (word_of_nat ?c) = Inr (word_of_nat (t * ?c))"
    by (simp add: mul_int_def)
  show ?thesis
  proof (cases "Suc t = ?n")
    case True
    then have "bound len ?n (Suc t) = len" by (simp add: bound_def)
    then show ?thesis
      using True m b1 thread_id_eq_last[OF assms(2,3)]
      by (simp add: section_bounds_def int_of_size_t_def)
  next
    case False
    then have b2: "bound len ?n (Suc t) = t * ?c + ?c" by (simp add: bound_def)
    have "bound len ?n (Suc t) \<le> len" using bound_le_len[OF n, of "Suc t" len] assms(3) by simp
    then have le: "t * ?c + ?c \<le> len" using b2 by simp
    have "t * ?c \<le> 2147483647" using tc assms(1) by linarith
    then have st: "sint (word_of_nat (t * ?c) :: cint) = int (t * ?c)" by (rule sint_of_nat_ok)
    have "t * ?c + ?c \<le> 2147483647" using le assms(1) by linarith
    then have "in_int (int (t * ?c + ?c))" by (rule in_int_of_nat)
    then have "in_int (int (t * ?c) + int ?c)" by (simp only: of_nat_add)
    then have "in_int (sint (word_of_nat (t * ?c) :: cint) + sint (word_of_nat ?c :: cint))"
      by (simp only: st c)
    then have a: "add_int (word_of_nat (t * ?c)) (word_of_nat ?c) = Inr (word_of_nat (t * ?c + ?c))"
      by (simp add: add_int_def)
    show ?thesis
      using False m a b1 b2 thread_id_eq_last[OF assms(2,3)]
      by (simp add: section_bounds_def)
  qed
qed

lemma spawn_sections_eq:
  assumes "len \<le> 2147483647" "0 < sint T"
  shows "spawn_sections len T =
           Inr (map (\<lambda>t. (word_of_nat (bound len (nat (sint T)) t),
                          word_of_nat (bound len (nat (sint T)) (Suc t))))
                 [0..<nat (sint T)])"
proof -
  let ?g = "\<lambda>t. (word_of_nat (bound len (nat (sint T)) t) :: cint,
                   word_of_nat (bound len (nat (sint T)) (Suc t)) :: cint)"
  have "\<forall>x\<in>set [0..<nat (sint T)].
          (section_bounds len T (word_of_nat (len div nat (sint T))) \<circ> word_of_nat) x = Inr (?g x)"
    using section_bounds_ok[OF assms] by simp
  then have "traverse (section_bounds len T (word_of_nat (len div nat (sint T))) \<circ> word_of_nat)
               [0..<nat (sint T)] = Inr (map ?g [0..<nat (sint T)])"
    by (rule traverse_map)
  then show ?thesis
    using assms(2) by (simp add: spawn_sections_def chunk_size_pos thread_ids_def traverse_comp)
qed

lemma greatest_of_unique: "greatest_of S x \<Longrightarrow> greatest_of S y \<Longrightarrow> x = y"
proof -
  assume "greatest_of S x" "greatest_of S y"
  then have "sint x \<le> sint y" "sint y \<le> sint x" by (auto simp add: greatest_of_def)
  then have "sint x = sint y" by simp
  then show ?thesis by (simp add: sint_eq_iff)
qed

lemma fold_smax_greatest:
  "greatest_of (insert m (set vs)) (fold (\<lambda>v a. smax a v) vs m)"
proof (induction vs arbitrary: m)
  case Nil
  show ?case by (simp add: greatest_of_def)
next
  case (Cons v vs)
  have g: "greatest_of (insert (smax m v) (set vs)) (fold (\<lambda>v a. smax a v) vs (smax m v))"
    by (rule Cons.IH)
  let ?r = "fold (\<lambda>v a. smax a v) vs (smax m v)"
  have 1: "smax m v = m \<or> smax m v = v" by (simp add: smax_def)
  have 2: "sint m \<le> sint (smax m v)" "sint v \<le> sint (smax m v)" by (simp_all add: sint_smax)
  have 3: "sint (smax m v) \<le> sint ?r" using g by (simp add: greatest_of_def)
  have "?r \<in> insert m (set (v # vs))" using g 1 by (auto simp add: greatest_of_def)
  moreover have "\<forall>x\<in>insert m (set (v # vs)). sint x \<le> sint ?r"
    using g 2 3 by (auto simp add: greatest_of_def)
  ultimately show ?case by (simp add: greatest_of_def)
qed

lemma concat_ranges:
  "\<forall>t<m. b t \<le> b (Suc t) \<Longrightarrow>
   b 0 \<le> b m \<and> concat (map (\<lambda>t. map f [b t..<b (Suc t)]) [0..<m]) = map f [b 0..<b m]"
proof (induction m)
  case 0
  show ?case by simp
next
  case (Suc m)
  then have ih: "b 0 \<le> b m" "concat (map (\<lambda>t. map f [b t..<b (Suc t)]) [0..<m]) = map f [b 0..<b m]"
    by simp_all
  have le: "b m \<le> b (Suc m)" using Suc.prems by simp
  have "[b 0..<b (Suc m)] = [b 0..<b m] @ [b m..<b (Suc m)]"
    using ih(1) le upt_add_eq_append[of "b 0" "b m" "b (Suc m) - b m"] by simp
  then show ?case using ih le by simp
qed

lemma concat_slices:
  assumes "0 < n"
  shows "concat (map (slice data n) [0..<n]) = data"
proof -
  let ?b = "bound (length data) n"
  have "\<forall>t<n. ?b t \<le> ?b (Suc t)" using bound_mono[OF assms] by simp
  then have "concat (map (\<lambda>t. map ((!) data) [?b t..<?b (Suc t)]) [0..<n]) = map ((!) data) [?b 0..<?b n]"
    using concat_ranges[of n ?b "(!) data"] by simp
  moreover have "?b 0 = 0" using assms by (simp add: bound_def)
  moreover have "?b n = length data" by (simp add: bound_def)
  ultimately show ?thesis by (simp add: slice_def[abs_def] map_nth)
qed

lemma length_slice_le:
  assumes "0 < n" "t < n"
  shows "length (slice data n t) \<le> length data"
  using bound_le_len[OF assms(1), of "Suc t" "length data"] assms(2)
  by (simp add: slice_def)

lemma scan_slice:
  assumes "length data \<le> 2147483647" "0 < n" "t < n"
  shows "scan_section (word_of_nat (bound (length data) n t))
           (word_of_nat (bound (length data) n (Suc t))) data = Inr (local_of (slice data n t))"
proof -
  have b1: "bound (length data) n t \<le> length data"
    using bound_le_len[OF assms(2), of t "length data"] assms(3) by simp
  have b2: "bound (length data) n (Suc t) \<le> length data"
    using bound_le_len[OF assms(2), of "Suc t" "length data"] assms(3) by simp
  have "length (filter div5 (slice data n t)) \<le> length (slice data n t)" by simp
  then have k: "length (filter div5 (slice data n t)) \<le> 2147483647"
    using length_slice_le[OF assms(2,3), of data] assms(1) by linarith
  have "scan_section (word_of_nat (bound (length data) n t))
           (word_of_nat (bound (length data) n (Suc t))) data
        = scan_values (slice data n t) (0, INT_MIN)"
    using b1 b2 assms(1) by (simp add: scan_section_of_nat slice_def)
  then show ?thesis using k by (simp add: scan_values_eq local_of_def)
qed

lemma local_results_eq:
  assumes "length data \<le> 2147483647" "0 < sint T"
  shows "local_results data T =
           Inr (map (\<lambda>t. local_of (slice data (nat (sint T)) t)) [0..<nat (sint T)])"
proof -
  let ?n = "nat (sint T)"
  let ?g = "\<lambda>t. (word_of_nat (bound (length data) ?n t) :: cint,
                   word_of_nat (bound (length data) ?n (Suc t)) :: cint)"
  have n: "0 < ?n" using assms(2) by simp
  have "\<forall>t\<in>set [0..<?n]. ((\<lambda>(start, end). scan_section start end data) \<circ> ?g) t
          = Inr (local_of (slice data ?n t))"
    using scan_slice[OF assms(1) n] by simp
  then have "traverse ((\<lambda>(start, end). scan_section start end data) \<circ> ?g) [0..<?n]
          = Inr (map (\<lambda>t. local_of (slice data ?n t)) [0..<?n])"
    by (rule traverse_map)
  then show ?thesis
    by (simp add: local_results_def spawn_sections_eq[OF assms] traverse_comp)
qed

lemma sint_fst_local_of:
  "length vs \<le> 2147483647 \<Longrightarrow> sint (fst (local_of vs)) = int (length (filter div5 vs))"
proof -
  assume a: "length vs \<le> 2147483647"
  have "length (filter div5 vs) \<le> length vs" by simp
  then have "length (filter div5 vs) \<le> 2147483647" using a by linarith
  then show ?thesis by (simp add: local_of_def sint_of_nat_ok)
qed

lemma snd_local_of_greatest:
  "greatest_of (insert INT_MIN (set (filter div5 vs))) (snd (local_of vs))"
  using fold_smax_greatest[of INT_MIN "filter div5 vs"] by (simp add: local_of_def)

lemma count_concat:
  "sum_list (map (\<lambda>vs. length (filter div5 vs)) xss) = length (filter div5 (concat xss))"
  by (induction xss) simp_all

lemma word_sum_local_of:
  "sum_list (map (\<lambda>vs. fst (local_of vs)) xss) = (word_of_nat (length (filter div5 (concat xss))) :: cint)"
  by (induction xss) (simp_all add: local_of_def)

lemma merged_max:
  assumes "greatest_of (insert INT_MIN (snd ` local_of ` set xss)) M"
  shows "M = snd (local_of (concat xss))"
proof -
  let ?S = "insert INT_MIN (set (filter div5 (concat xss)))"
  have sub: "\<And>vs. vs \<in> set xss \<Longrightarrow> snd (local_of vs) \<in> ?S"
  proof -
    fix vs assume "vs \<in> set xss"
    moreover have "snd (local_of vs) \<in> insert INT_MIN (set (filter div5 vs))"
      using snd_local_of_greatest[of vs] by (simp add: greatest_of_def)
    ultimately show "snd (local_of vs) \<in> ?S" by (simp only: set_concat set_filter) blast
  qed
  have "M \<in> insert INT_MIN (snd ` local_of ` set xss)" using assms by (simp add: greatest_of_def)
  then consider "M = INT_MIN" | vs where "vs \<in> set xss" "M = snd (local_of vs)" by auto
  then have 1: "M \<in> ?S"
  proof cases
    case 1
    then show ?thesis by simp
  next
    case 2
    then show ?thesis using sub[of vs] by simp
  qed
  have ub: "\<And>x. x \<in> insert INT_MIN (snd ` local_of ` set xss) \<Longrightarrow> sint x \<le> sint M"
    using assms unfolding greatest_of_def by blast
  have 2: "\<forall>v\<in>?S. sint v \<le> sint M"
  proof
    fix v assume "v \<in> ?S"
    then consider "v = INT_MIN" | vs where "vs \<in> set xss" "v \<in> set (filter div5 vs)" by auto
    then show "sint v \<le> sint M"
    proof cases
      case 1
      then show ?thesis using ub[of INT_MIN] by simp
    next
      case 2
      have "sint v \<le> sint (snd (local_of vs))"
        using snd_local_of_greatest[of vs] 2(2) by (simp add: greatest_of_def)
      moreover have "sint (snd (local_of vs)) \<le> sint M" using ub[of "snd (local_of vs)"] 2(1) by simp
      ultimately show ?thesis by simp
    qed
  qed
  have "greatest_of ?S M" using 1 2 by (simp add: greatest_of_def)
  then show ?thesis using snd_local_of_greatest[of "concat xss"] greatest_of_unique by blast
qed

lemma lock_merges_eq:
  "\<forall>r\<in>set rs. 0 \<le> sint (fst r) \<Longrightarrow>
   lock_merges rs (c, m) =
     (if sint c + sum_list (map (\<lambda>r. sint (fst r)) rs) \<le> 2147483647
      then Inr (c + sum_list (map fst rs), fold (\<lambda>v a. smax a v) (map snd rs) m)
      else Inl SignedOverflow)"
proof (induction rs arbitrary: c m)
  case Nil
  show ?case using in_int_sint[of c] by (simp add: in_int_def)
next
  case (Cons r rs)
  have nn: "0 \<le> sint (fst r)" and rest: "\<forall>r\<in>set rs. 0 \<le> sint (fst r)"
    using Cons.prems by simp_all
  have sum_nn: "0 \<le> sum_list (map (\<lambda>r. sint (fst r)) rs)"
    using rest by (intro sum_list_nonneg) auto
  have lo: "- 2147483648 \<le> sint c + sint (fst r)"
    using nn in_int_sint[of c] by (simp add: in_int_def)
  show ?case
  proof (cases "sint c + sint (fst r) \<le> 2147483647")
    case True
    then have i: "in_int (sint c + sint (fst r))" using lo by (simp add: in_int_def)
    then have s: "sint (c + fst r) = sint c + sint (fst r)" by (rule sint_add_ok)
    have "merge_locked r (c, m) = Inr (c + fst r, smax m (snd r))"
      using i by (simp add: merge_locked_def add_int_def smax_def)
    then show ?thesis using Cons.IH[OF rest, of "c + fst r" "smax m (snd r)"] s
      by (simp add: add.assoc)
  next
    case False
    then have "merge_locked r (c, m) = Inl SignedOverflow"
      by (simp add: merge_locked_def add_int_def in_int_def)
    then show ?thesis using False sum_nn by simp
  qed
qed

lemma sum_list_map_mset:
  "mset xs = mset ys \<Longrightarrow> sum_list (map f xs) = (sum_list (map f ys) :: 'a::comm_monoid_add)"
proof -
  assume "mset xs = mset ys"
  then have "mset (map f xs) = mset (map f ys)" by simp
  then have "sum_mset (mset (map f xs)) = sum_mset (mset (map f ys))" by simp
  then show ?thesis by (simp only: sum_mset_sum_list)
qed

lemma lock_order_mset:
  assumes "lock_order order T" "length locals = nat (sint T)"
  shows "mset (map (\<lambda>w. locals ! w) order) = mset locals"
proof -
  have "mset order = mset (sort order)" by simp
  also have "\<dots> = mset [0..<length locals]" using assms by (simp add: lock_order_def)
  finally have "mset (map (\<lambda>w. locals ! w) order) = mset (map (\<lambda>w. locals ! w) [0..<length locals])"
    by simp
  then show ?thesis by (simp add: map_nth)
qed

lemma linearExecution_local_of:
  "length data \<le> 2147483647 \<Longrightarrow> linearExecution data = Inr (local_of data)"
proof -
  assume a: "length data \<le> 2147483647"
  have "length (filter div5 data) \<le> length data" by simp
  then have "length (filter div5 data) \<le> 2147483647" using a by linarith
  then show ?thesis by (simp add: linearExecution_eq local_of_def)
qed

lemma local_results_slices:
  assumes "length data \<le> 2147483647" "0 < sint T"
  shows "local_results data T = Inr (map local_of (map (slice data (nat (sint T))) [0..<nat (sint T)]))"
  using local_results_eq[OF assms] by (simp add: comp_def)

text \<open>Merging, in any order, the local results of lists whose concatenation is the dataset.\<close>

lemma lock_merges_locals:
  assumes "length (concat xss) \<le> 2147483647" "mset rs = mset (map local_of xss)"
  shows "lock_merges rs (0, INT_MIN) = Inr (local_of (concat xss))"
proof -
  let ?data = "concat xss"
  let ?locals = "map local_of xss"
  have set_rs: "set rs = local_of ` set xss"
    using mset_eq_setD[OF assms(2)] by simp
  have len: "\<And>vs. vs \<in> set xss \<Longrightarrow> length vs \<le> 2147483647"
  proof -
    fix vs assume "vs \<in> set xss"
    then have "length vs \<in> set (map length xss)" by simp
    then have "length vs \<le> sum_list (map length xss)" by (rule member_le_sum_list) simp
    then show "length vs \<le> 2147483647" using assms(1) by (simp add: length_concat)
  qed
  have nn: "\<forall>r\<in>set rs. 0 \<le> sint (fst r)"
    using set_rs len by (auto simp add: sint_fst_local_of)
  have "sum_list (map (\<lambda>r. sint (fst r)) rs) = sum_list (map (\<lambda>r. sint (fst r)) ?locals)"
    using assms(2) by (rule sum_list_map_mset)
  also have "\<dots> = sum_list (map (\<lambda>vs. int (length (filter div5 vs))) xss)"
    using len by (simp add: comp_def sint_fst_local_of cong: map_cong)
  also have "\<dots> = int (sum_list (map (\<lambda>vs. length (filter div5 vs)) xss))"
    by (induction xss) simp_all
  also have "\<dots> = int (length (filter div5 ?data))" by (simp only: count_concat)
  finally have total: "sum_list (map (\<lambda>r. sint (fst r)) rs) = int (length (filter div5 ?data))" .
  have "length (filter div5 ?data) \<le> length ?data" by simp
  then have k: "length (filter div5 ?data) \<le> 2147483647" using assms(1) by linarith
  have "sum_list (map fst rs) = sum_list (map fst ?locals)"
    using assms(2) by (rule sum_list_map_mset)
  also have "\<dots> = word_of_nat (length (filter div5 ?data))"
    using word_sum_local_of[of xss] by (simp add: comp_def)
  finally have wsum: "sum_list (map fst rs) = word_of_nat (length (filter div5 ?data))" .
  let ?M = "fold (\<lambda>v a. smax a v) (map snd rs) INT_MIN"
  have "greatest_of (insert INT_MIN (set (map snd rs))) ?M" by (rule fold_smax_greatest)
  then have "greatest_of (insert INT_MIN (snd ` local_of ` set xss)) ?M"
    using set_rs by simp
  then have M: "?M = snd (local_of ?data)" by (rule merged_max)
  have "lock_merges rs (0, INT_MIN) = Inr (word_of_nat (length (filter div5 ?data)), ?M)"
    using lock_merges_eq[OF nn, of 0 INT_MIN] total k wsum by simp
  then show ?thesis using M by (simp add: local_of_def)
qed

lemma parallelWithMutex_eq:
  assumes "length data \<le> 2147483647" "0 < sint T" "lock_order order T"
  shows "parallelWithMutex order data T = Inr (local_of data)"
proof -
  let ?n = "nat (sint T)"
  let ?xss = "map (slice data ?n) [0..<?n]"
  let ?locals = "map local_of ?xss"
  have n: "0 < ?n" using assms(2) by simp
  have c: "concat ?xss = data" using concat_slices[OF n] .
  have "length ?locals = ?n" by simp
  then have "mset (map (\<lambda>w. ?locals ! w) order) = mset ?locals"
    using lock_order_mset[OF assms(3)] by blast
  then have "lock_merges (map (\<lambda>w. ?locals ! w) order) (0, INT_MIN) = Inr (local_of (concat ?xss))"
    using assms(1) c by (intro lock_merges_locals) simp_all
  then show ?thesis
    using c by (simp add: parallelWithMutex_def local_results_slices[OF assms(1,2)])
qed

lemma step_thread_cases:
  "step_thread locals (w, fail) s =
     (if length (pcs s) \<le> w then s
      else case pcs s ! w of
        FetchAdd \<Rightarrow> s\<lparr>atomicCount := atomicCount s + fst (locals ! w), pcs := (pcs s)[w := Load]\<rparr>
      | Load \<Rightarrow> s\<lparr>pcs := (pcs s)[w := Loop (atomicMax s)]\<rparr>
      | Loop currentMax \<Rightarrow>
          if \<not> currentMax <s snd (locals ! w) then s\<lparr>pcs := (pcs s)[w := Finished]\<rparr>
          else if atomicMax s \<noteq> currentMax then s\<lparr>pcs := (pcs s)[w := Load]\<rparr>
          else if fail \<and> 0 < spurious s
            then s\<lparr>pcs := (pcs s)[w := Load], spurious := spurious s - 1\<rparr>
          else s\<lparr>atomicMax := snd (locals ! w), pcs := (pcs s)[w := Finished]\<rparr>
      | Finished \<Rightarrow> s)"
  by (simp add: step_thread_def Let_def)

lemma step_length: "length (pcs (step_thread locals a s)) = length (pcs s)"
  by (cases a) (simp add: step_thread_cases split: pc.splits)

lemma step_mono: "sint (atomicMax s) \<le> sint (atomicMax (step_thread locals a s))"
  by (cases a) (simp add: step_thread_cases word_sless_alt split: pc.splits)

lemma counted_update:
  assumes "w < length locals" "length ps = length locals"
  shows "counted locals (ps[w := p]) =
           counted locals ps - (if ps ! w = FetchAdd then 0 else fst (locals ! w))
             + (if p = FetchAdd then 0 else fst (locals ! w))"
proof -
  have True: "w < length ps" using assms by simp
  let ?A = "{0..<length locals}"
  let ?f = "\<lambda>ps w. if ps ! w = FetchAdd then 0 else fst (locals ! w)"
  have w: "w \<in> ?A" using assms by simp
  have 1: "sum (?f (ps[w := p])) ?A = ?f (ps[w := p]) w + sum (?f (ps[w := p])) (?A - {w})"
    using w by (simp add: sum.remove)
  have 2: "sum (?f ps) ?A = ?f ps w + sum (?f ps) (?A - {w})"
    using w by (simp add: sum.remove)
  have 3: "sum (?f (ps[w := p])) (?A - {w}) = sum (?f ps) (?A - {w})"
    by (rule sum.cong) simp_all
  have 4: "?f (ps[w := p]) w = (if p = FetchAdd then 0 else fst (locals ! w))"
    using True by simp
  show ?thesis unfolding counted_def using 1 2 3 4 by simp
qed

lemma pc_ok_mono: "sint m \<le> sint m' \<Longrightarrow> pc_ok locals m w p \<Longrightarrow> pc_ok locals m' w p"
  by (cases p) (simp_all add: pc_ok_def)

lemma cas_inv_step:
  assumes "cas_inv locals s"
  shows "cas_inv locals (step_thread locals a s)"
proof -
  obtain w fail where a: "a = (w, fail)" by (cases a)
  let ?s' = "step_thread locals (w, fail) s"
  have len: "length (pcs s) = length locals" using assms by (simp add: cas_inv_def)
  have cnt: "atomicCount s = counted locals (pcs s)" using assms by (simp add: cas_inv_def)
  have mem: "atomicMax s \<in> insert INT_MIN (snd ` set locals)" using assms by (simp add: cas_inv_def)
  have ok: "\<And>v. v < length locals \<Longrightarrow> pc_ok locals (atomicMax s) v (pcs s ! v)"
    using assms by (simp add: cas_inv_def)
  show ?thesis
  proof (cases "w < length locals")
    case False
    then show ?thesis using assms len a by (simp add: step_thread_cases)
  next
    case True
    have mono: "sint (atomicMax s) \<le> sint (atomicMax ?s')" by (rule step_mono)
    have others: "\<And>v. v < length locals \<Longrightarrow> v \<noteq> w \<Longrightarrow> pcs ?s' ! v = pcs s ! v"
      using True len by (simp add: step_thread_cases split: pc.splits)
    have l': "length (pcs ?s') = length locals" using len by (simp add: step_length)
    have c': "atomicCount ?s' = counted locals (pcs ?s')"
      using True len cnt by (simp add: step_thread_cases counted_update split: pc.splits)
    have in_set: "snd (locals ! w) \<in> snd ` set locals" using True by simp
    have m': "atomicMax ?s' \<in> insert INT_MIN (snd ` set locals)"
      using True len mem in_set by (simp add: step_thread_cases split: pc.splits)
    have own: "pc_ok locals (atomicMax ?s') w (pcs ?s' ! w)"
      using True len ok[of w]
      by (auto simp add: step_thread_cases pc_ok_def word_sless_alt split: pc.splits)
    have "\<forall>v<length locals. pc_ok locals (atomicMax ?s') v (pcs ?s' ! v)"
    proof (intro allI impI)
      fix v assume v: "v < length locals"
      show "pc_ok locals (atomicMax ?s') v (pcs ?s' ! v)"
      proof (cases "v = w")
        case True
        then show ?thesis using own by simp
      next
        case False
        then show ?thesis using others[OF v] ok[OF v] pc_ok_mono[OF mono] by simp
      qed
    qed
    then show ?thesis using l' c' m' a by (simp add: cas_inv_def)
  qed
qed

lemma cas_inv_run: "cas_inv locals s \<Longrightarrow> cas_inv locals (run locals sched s)"
  unfolding run_def by (induction sched arbitrary: s) (simp_all add: cas_inv_step)

lemma cas_inv_init: "cas_inv locals (init_state locals n)"
  by (simp add: cas_inv_def init_state_def counted_def pc_ok_def)

lemma joined_nth: "joined s \<Longrightarrow> w < length (pcs s) \<Longrightarrow> pcs s ! w = Finished"
  by (simp add: joined_def list_all_length)

lemma cas_inv_joined:
  assumes "cas_inv locals s" "joined s"
  shows "atomicCount s = sum_list (map fst locals)"
    and "greatest_of (insert INT_MIN (snd ` set locals)) (atomicMax s)"
proof -
  have len: "length (pcs s) = length locals" using assms(1) by (simp add: cas_inv_def)
  have fin: "\<And>w. w < length locals \<Longrightarrow> pcs s ! w = Finished"
    using joined_nth[OF assms(2)] len by simp
  have "atomicCount s = counted locals (pcs s)" using assms(1) by (simp add: cas_inv_def)
  also have "\<dots> = (\<Sum>w = 0..<length locals. fst (locals ! w))"
    unfolding counted_def by (rule sum.cong) (simp_all add: fin)
  also have "\<dots> = sum_list (map fst locals)"
    by (simp add: sum_list_sum_nth)
  finally show "atomicCount s = sum_list (map fst locals)" .
  have mem: "atomicMax s \<in> insert INT_MIN (snd ` set locals)" using assms(1) by (simp add: cas_inv_def)
  have "\<forall>v\<in>insert INT_MIN (snd ` set locals). sint v \<le> sint (atomicMax s)"
  proof
    fix v assume "v \<in> insert INT_MIN (snd ` set locals)"
    then consider "v = INT_MIN" | w where "w < length locals" "v = snd (locals ! w)"
      by (auto simp add: in_set_conv_nth)
    then show "sint v \<le> sint (atomicMax s)"
    proof cases
      case 1
      then show ?thesis using sint_ge_INT_MIN by simp
    next
      case 2
      have "pc_ok locals (atomicMax s) w (pcs s ! w)" using assms(1) 2(1) by (simp add: cas_inv_def)
      then show ?thesis using fin[OF 2(1)] 2(2) by (simp add: pc_ok_def)
    qed
  qed
  then show "greatest_of (insert INT_MIN (snd ` set locals)) (atomicMax s)"
    using mem by (simp add: greatest_of_def)
qed

lemma run_append: "run locals (xs @ ys) s = run locals ys (run locals xs s)"
  by (simp add: run_def)

lemma run_thread_alone:
  assumes "w < length (pcs s)" "pcs s ! w = FetchAdd"
  shows "pcs (run locals (thread_alone w) s) = (pcs s)[w := Finished]"
proof -
  let ?s1 = "step_thread locals (w, False) s"
  let ?s2 = "step_thread locals (w, False) ?s1"
  let ?s3 = "step_thread locals (w, False) ?s2"
  have 1: "pcs ?s1 = (pcs s)[w := Load]" "atomicMax ?s1 = atomicMax s"
    using assms by (simp_all add: step_thread_cases)
  have 2: "pcs ?s2 = (pcs s)[w := Loop (atomicMax s)]" "atomicMax ?s2 = atomicMax s"
    using assms 1 by (simp_all add: step_thread_cases)
  have l2: "w < length (pcs ?s2)" "pcs ?s2 ! w = Loop (atomicMax ?s2)"
    using assms 2 by simp_all
  have 3: "pcs ?s3 = (pcs ?s2)[w := Finished]"
    using l2 by (simp add: step_thread_cases[of locals w False ?s2])
  have "run locals (thread_alone w) s = ?s3" by (simp add: run_def thread_alone_def)
  then show ?thesis using 3 2 by simp
qed

lemma run_one_by_one:
  "m \<le> n \<Longrightarrow> pcs s = replicate n FetchAdd \<Longrightarrow>
   pcs (run locals (one_by_one m) s) = replicate m Finished @ replicate (n - m) FetchAdd"
proof (induction m)
  case 0
  then show ?case by (simp add: one_by_one_def run_def)
next
  case (Suc m)
  let ?s = "run locals (one_by_one m) s"
  have ih: "pcs ?s = replicate m Finished @ replicate (n - m) FetchAdd"
    using Suc by simp
  have w: "m < length (pcs ?s)" "pcs ?s ! m = FetchAdd"
    using Suc.prems(1) ih by (simp_all add: nth_append)
  have "run locals (one_by_one (Suc m)) s = run locals (thread_alone m) ?s"
    by (simp add: one_by_one_def run_append)
  then have "pcs (run locals (one_by_one (Suc m)) s) = (pcs ?s)[m := Finished]"
    using run_thread_alone[OF w] by simp
  also have "\<dots> = replicate m Finished @ (replicate (n - m) FetchAdd)[0 := Finished]"
    using ih by (simp add: list_update_append)
  also have "replicate (n - m) FetchAdd = FetchAdd # replicate (n - Suc m) FetchAdd"
    using Suc.prems(1) by (cases "n - m") simp_all
  finally show ?case by (simp add: replicate_append_same)
qed

lemma joined_one_by_one:
  "joined (run locals (one_by_one (length locals)) (init_state locals n))"
  using run_one_by_one[of "length locals" "length locals" "init_state locals n" locals]
  by (simp add: joined_def init_state_def list_all_iff)

lemma joined_result:
  assumes "joined (run locals sched (init_state locals n))"
  shows "atomicCount (run locals sched (init_state locals n)) = sum_list (map fst locals)"
    and "greatest_of (insert INT_MIN (snd ` set locals))
           (atomicMax (run locals sched (init_state locals n)))"
  using cas_inv_joined[OF cas_inv_run[OF cas_inv_init] assms] by simp_all

lemma joined_locals:
  assumes "length (concat xss) \<le> 2147483647"
    "joined (run (map local_of xss) sched (init_state (map local_of xss) n))"
  shows "atomicCount (run (map local_of xss) sched (init_state (map local_of xss) n))
           = fst (local_of (concat xss))"
    and "atomicMax (run (map local_of xss) sched (init_state (map local_of xss) n))
           = snd (local_of (concat xss))"
proof -
  let ?s = "run (map local_of xss) sched (init_state (map local_of xss) n)"
  have "atomicCount ?s = sum_list (map fst (map local_of xss))"
    using joined_result(1)[OF assms(2)] .
  also have "\<dots> = word_of_nat (length (filter div5 (concat xss)))"
    using word_sum_local_of[of xss] by (simp add: comp_def)
  finally show "atomicCount ?s = fst (local_of (concat xss))" by (simp add: local_of_def)
  have "greatest_of (insert INT_MIN (snd ` local_of ` set xss)) (atomicMax ?s)"
    using joined_result(2)[OF assms(2)] by simp
  then show "atomicMax ?s = snd (local_of (concat xss))" by (rule merged_max)
qed

lemma parallelWithCAS_eq:
  assumes "length data \<le> 2147483647" "0 < sint T"
  shows "parallelWithCAS sched n data T = Some r \<Longrightarrow> r = Inr (local_of data)"
    and "parallelWithCAS (one_by_one (nat (sint T))) n data T = Some (Inr (local_of data))"
proof -
  let ?n = "nat (sint T)"
  let ?xss = "map (slice data ?n) [0..<?n]"
  let ?locals = "map local_of ?xss"
  have n: "0 < ?n" using assms(2) by simp
  have c: "concat ?xss = data" using concat_slices[OF n] .
  have lr: "local_results data T = Inr ?locals" by (rule local_results_slices[OF assms])
  have res: "\<And>sched. joined (run ?locals sched (init_state ?locals n)) \<Longrightarrow>
          parallelWithCAS sched n data T = Some (Inr (local_of data))"
  proof -
    fix sched assume j: "joined (run ?locals sched (init_state ?locals n))"
    have l: "length (concat ?xss) \<le> 2147483647" using c assms(1) by simp
    have "atomicCount (run ?locals sched (init_state ?locals n)) = fst (local_of data)"
      using joined_locals(1)[OF l j] c by simp
    moreover have "atomicMax (run ?locals sched (init_state ?locals n)) = snd (local_of data)"
      using joined_locals(2)[OF l j] c by simp
    ultimately show "parallelWithCAS sched n data T = Some (Inr (local_of data))"
      using j lr by (simp add: parallelWithCAS_def Let_def)
  qed
  show "parallelWithCAS sched n data T = Some r \<Longrightarrow> r = Inr (local_of data)"
  proof -
    assume a: "parallelWithCAS sched n data T = Some r"
    then have "joined (run ?locals sched (init_state ?locals n))"
      using lr by (simp add: parallelWithCAS_def Let_def split: if_splits)
    then show ?thesis using res a by simp
  qed
  have "joined (run ?locals (one_by_one (length ?locals)) (init_state ?locals n))"
    by (rule joined_one_by_one)
  then have "joined (run ?locals (one_by_one ?n) (init_state ?locals n))" by simp
  then show "parallelWithCAS (one_by_one ?n) n data T = Some (Inr (local_of data))"
    by (rule res)
qed

lemma bound_mono2:
  assumes "0 < n" "u \<le> n"
  shows "t \<le> u \<Longrightarrow> bound len n t \<le> bound len n u"
  using assms(2)
proof (induction u)
  case 0
  then show ?case by simp
next
  case (Suc u)
  show ?case
  proof (cases "t = Suc u")
    case True
    then show ?thesis by simp
  next
    case False
    then have "t \<le> u" using Suc.prems(1) by simp
    moreover have "u \<le> n" "u < n" using Suc.prems(2) by simp_all
    ultimately have "bound len n t \<le> bound len n u" using Suc.IH by simp
    also have "\<dots> \<le> bound len n (Suc u)" using bound_mono[OF assms(1) \<open>u < n\<close>] .
    finally show ?thesis .
  qed
qed

lemma union_ranges:
  "\<forall>t<m. b t \<le> b (Suc t) \<Longrightarrow> (\<Union>t<m. {b t..<b (Suc t)}) = {b 0..<b (m::nat)::nat}"
proof (induction m)
  case 0
  show ?case by simp
next
  case (Suc m)
  then have ih: "(\<Union>t<m. {b t..<b (Suc t)}) = {b 0..<b m}" by simp
  have "b 0 \<le> b m" using concat_ranges[of m b id] Suc.prems by simp
  moreover have "b m \<le> b (Suc m)" using Suc.prems by simp
  ultimately have "{b 0..<b m} \<union> {b m..<b (Suc m)} = {b 0..<b (Suc m)}"
    by (rule ivl_disj_un_two(3))
  then show ?case using ih by (simp add: lessThan_Suc Un_commute)
qed

lemma sint_bound:
  assumes "len \<le> 2147483647" "0 < n" "t \<le> n"
  shows "sint (word_of_nat (bound len n t) :: cint) = int (bound len n t)"
proof -
  have "bound len n t \<le> 2147483647" using bound_le_len[OF assms(2,3), of len] assms(1) by linarith
  then show ?thesis by (rule sint_of_nat_ok)
qed

lemma section_indices_bound:
  assumes "len \<le> 2147483647" "0 < n" "t < n"
  shows "section_indices (word_of_nat (bound len n t)) (word_of_nat (bound len n (Suc t)))
           = map int [bound len n t..<bound len n (Suc t)]"
proof -
  have "bound len n t \<le> 2147483647" using bound_le_len[OF assms(2), of t len] assms(1,3) by simp
  moreover have "bound len n (Suc t) \<le> 2147483647"
    using bound_le_len[OF assms(2), of "Suc t" len] assms(1,3) by simp
  ultimately show ?thesis by (rule section_indices_of_nat)
qed

lemma sum_list_map_update:
  fixes f :: "'a \<Rightarrow> nat"
  assumes "w < length ps"
  shows "sum_list (map f (ps[w := p])) + f (ps ! w) = sum_list (map f ps) + f p"
proof -
  have "sum_list ((map f ps)[w := f p]) = sum_list (map f ps) + f p - (map f ps) ! w"
    using assms by (intro sum_list_update) simp
  moreover have "(map f ps) ! w \<le> sum_list (map f ps)"
    using assms by (intro member_le_sum_list) simp_all
  ultimately show ?thesis using assms by (simp add: map_update)
qed

lemma step_decreases:
  assumes "w < length (pcs s)" "pcs s ! w \<noteq> Finished"
  shows "unfinished (step_thread locals (w, fail) s) < unfinished s
         \<or> unfinished (step_thread locals (w, fail) s) = unfinished s
            \<and> (spurious (step_thread locals (w, fail) s) < spurious s
               \<or> spurious (step_thread locals (w, fail) s) = spurious s
                  \<and> weights (step_thread locals (w, fail) s) < weights s)"
proof -
  let ?u = "\<lambda>p. if p = Finished then 0 else (1::nat)"
  have U: "\<And>p. sum_list (map ?u ((pcs s)[w := p])) + ?u (pcs s ! w) = sum_list (map ?u (pcs s)) + ?u p"
    using assms(1) by (rule sum_list_map_update)
  have W: "\<And>p. sum_list (map (weight (atomicMax s)) ((pcs s)[w := p])) + weight (atomicMax s) (pcs s ! w)
             = sum_list (map (weight (atomicMax s)) (pcs s)) + weight (atomicMax s) p"
    using assms(1) by (rule sum_list_map_update)
  show ?thesis
  proof (cases "pcs s ! w")
    case FetchAdd
    then show ?thesis
      using assms(1) U[of Load] W[of Load]
      by (simp add: step_thread_cases unfinished_def weights_def weight_def)
  next
    case Load
    then show ?thesis
      using assms(1) U[of "Loop (atomicMax s)"] W[of "Loop (atomicMax s)"]
      by (simp add: step_thread_cases unfinished_def weights_def weight_def)
  next
    case (Loop c)
    show ?thesis
    proof (cases "\<not> c <s snd (locals ! w) \<or> (atomicMax s = c \<and> \<not> (fail \<and> 0 < spurious s))")
      case True
      then have "pcs (step_thread locals (w, fail) s) = (pcs s)[w := Finished]"
        using assms(1) Loop by (auto simp add: step_thread_cases)
      then show ?thesis using U[of Finished] Loop by (simp add: unfinished_def)
    next
      case False
      show ?thesis
      proof (cases "atomicMax s = c")
        case True
        then show ?thesis
          using False assms(1) Loop U[of Load]
          by (simp add: step_thread_cases unfinished_def)
      next
        case stale: False
        then show ?thesis
          using False assms(1) Loop U[of Load] W[of Load]
          by (simp add: step_thread_cases unfinished_def weights_def weight_def)
      qed
    qed
  next
    case Finished
    then show ?thesis using assms(2) by simp
  qed
qed

lemma wf_cas_steps: "wf (cas_steps locals)"
proof -
  let ?r = "inv_image (less_than <*lex*> less_than <*lex*> less_than)
              (\<lambda>s. (unfinished s, spurious s, weights s))"
  have "cas_steps locals \<subseteq> ?r"
    using step_decreases by (auto simp add: cas_steps_def)
  moreover have "wf ?r" by (intro wf_inv_image wf_lex_prod wf_less_than)
  ultimately show ?thesis by (rule wf_subset[rotated])
qed

section \<open>The linear reducer\<close>

text \<open>
  Claim C2. \<^verbatim>\<open>linearExecution\<close> returns the number of elements divisible by 5 as its
  count and the greatest element divisible by 5 as its maximum, and \<open>INT_MIN\<close> as the
  maximum when no element is divisible by 5. The count is an \<^verbatim>\<open>int\<close>: this holds for
  every dataset with at most \<open>2147483647\<close> elements divisible by 5.
\<close>

theorem linearExecution_count_max:
  assumes "length (filter (\<lambda>v. 5 dvd sint v) data) \<le> 2147483647"
  shows "\<exists>cnt maxValue. linearExecution data = Inr (cnt, maxValue)
           \<and> sint cnt = int (length (filter (\<lambda>v. 5 dvd sint v) data))
           \<and> (if \<exists>v\<in>set data. 5 dvd sint v
               then sint maxValue = Max (sint ` {v \<in> set data. 5 dvd sint v})
               else maxValue = INT_MIN)"
proof -
  have f: "filter (\<lambda>v. 5 dvd sint v) data = filter div5 data"
    by (simp add: div5_def[abs_def])
  let ?k = "length (filter div5 data)"
  let ?m = "fold (\<lambda>v a. smax a v) (filter div5 data) INT_MIN"
  have k: "?k \<le> 2147483647" using assms f by simp
  then have 1: "linearExecution data = Inr (word_of_nat ?k, ?m)"
    by (simp add: linearExecution_eq)
  have 2: "sint (word_of_nat ?k :: cint) = int ?k" using k by (rule sint_of_nat_ok)
  have 3: "if \<exists>v\<in>set data. 5 dvd sint v
           then sint ?m = Max (sint ` {v \<in> set data. 5 dvd sint v}) else ?m = INT_MIN"
    using sint_greatest[of data] sint_eq_iff[of ?m INT_MIN] by (simp add: div5_def)
  show ?thesis using 1 2 3 f by simp
qed

text \<open>The dataset \<open>[5, 3, 10, 22, 25, 7]\<close> is within the bound.\<close>

theorem linearExecution_count_max_witness:
  "length (filter (\<lambda>v. 5 dvd sint v) [5, 3, 10, 22, 25, 7 :: cint]) \<le> 2147483647
   \<and> (\<exists>cnt maxValue. linearExecution [5, 3, 10, 22, 25, 7] = Inr (cnt, maxValue)
           \<and> sint cnt = int (length (filter (\<lambda>v. 5 dvd sint v) [5, 3, 10, 22, 25, 7 :: cint]))
           \<and> (if \<exists>v\<in>set [5, 3, 10, 22, 25, 7 :: cint]. 5 dvd sint v
               then sint maxValue = Max (sint ` {v \<in> set [5, 3, 10, 22, 25, 7 :: cint]. 5 dvd sint v})
               else maxValue = INT_MIN))"
proof -
  have h: "length (filter (\<lambda>v. 5 dvd sint v) [5, 3, 10, 22, 25, 7 :: cint]) \<le> 2147483647"
    by simp
  show ?thesis using h linearExecution_count_max[OF h] by (rule conjI)
qed

text \<open>
  With \<open>2147483648\<close> elements divisible by 5, the increment \<^verbatim>\<open>count++\<close> overflows at
  the last one: the scan has no defined result, so the claim does not hold for every
  dataset.
\<close>

theorem linearExecution_count_overflow:
  "linearExecution (replicate 2147483648 5) = Inl SignedOverflow
   \<and> length (filter (\<lambda>v. 5 dvd sint v) (replicate 2147483648 (5::cint))) = 2147483648"
  by (simp add: linearExecution_eq div5_def)

section \<open>The three reducers agree\<close>

text \<open>
  Claim C1. For a dataset of at most \<open>2147483647\<close> elements and a thread count
  \<open>numThreads \<ge> 1\<close>, \<^verbatim>\<open>linearExecution\<close> returns a pair (count, maximum);
  \<^verbatim>\<open>parallelWithMutex\<close> returns the same pair, in whatever order the threads take the
  lock; every execution of \<^verbatim>\<open>parallelWithCAS\<close> (every interleaving of the threads'
  atomic operations that runs all of them to their end, with any number of spurious
  failures of the weak exchange) returns the same pair, and such an execution exists.
\<close>

theorem reducers_agree:
  assumes "length data \<le> 2147483647" "0 < sint numThreads" "lock_order order numThreads"
  shows "(\<exists>cnt maxValue. linearExecution data = Inr (cnt, maxValue))
         \<and> parallelWithMutex order data numThreads = linearExecution data
         \<and> (\<forall>sched r. parallelWithCAS sched n data numThreads = Some r \<longrightarrow> r = linearExecution data)
         \<and> (\<exists>sched. parallelWithCAS sched n data numThreads = Some (linearExecution data))"
proof -
  have lin: "linearExecution data = Inr (local_of data)"
    using assms(1) by (rule linearExecution_local_of)
  have 1: "\<exists>cnt maxValue. linearExecution data = Inr (cnt, maxValue)"
    using lin by (cases "local_of data") simp
  have 2: "parallelWithMutex order data numThreads = linearExecution data"
    using parallelWithMutex_eq[OF assms] lin by simp
  have 3: "\<forall>sched r. parallelWithCAS sched n data numThreads = Some r \<longrightarrow> r = linearExecution data"
    using parallelWithCAS_eq(1)[OF assms(1,2)] lin by simp
  have 4: "\<exists>sched. parallelWithCAS sched n data numThreads = Some (linearExecution data)"
    using parallelWithCAS_eq(2)[OF assms(1,2), of n] lin by auto
  show ?thesis using 1 2 3 4 by simp
qed

text \<open>
  The dataset \<open>[5, 3, 10, 22, 25, 7]\<close> with three threads: the lock is taken in the
  order 2, 0, 1; in the interleaving of \<^verbatim>\<open>parallelWithCAS\<close> thread 1 installs its
  maximum first, the exchanges of threads 0 and 2 fail on it, thread 0 then leaves the
  loop without an exchange and thread 2 installs 25 after one spurious failure.
\<close>

theorem reducers_agree_witness:
  "length [5, 3, 10, 22, 25, 7 :: cint] \<le> 2147483647 \<and> 0 < sint (3 :: cint)
   \<and> lock_order [2, 0, 1] 3
   \<and> parallelWithCAS [(1, False), (0, False), (1, False), (2, False), (0, False), (2, False),
        (1, False), (2, False), (0, False), (0, False), (0, False), (2, False), (2, True),
        (2, False), (2, False)] 1 [5, 3, 10, 22, 25, 7] 3
        = Some (Inr (3, 25))
   \<and> linearExecution [5, 3, 10, 22, 25, 7] = Inr (3, 25)
   \<and> parallelWithMutex [2, 0, 1] [5, 3, 10, 22, 25, 7] 3 = Inr (3, 25)"
proof -
  have h1: "length [5, 3, 10, 22, 25, 7 :: cint] \<le> 2147483647" by simp
  have h2: "0 < sint (3 :: cint)" by simp
  have h3: "lock_order [2, 0, 1] 3" by code_simp
  have c: "parallelWithCAS [(1, False), (0, False), (1, False), (2, False), (0, False), (2, False),
        (1, False), (2, False), (0, False), (0, False), (0, False), (2, False), (2, True),
        (2, False), (2, False)] 1 [5, 3, 10, 22, 25, 7] 3
        = Some (Inr (3, 25))" by code_simp
  have l: "linearExecution [5, 3, 10, 22, 25, 7] = Inr (3, 25)"
    using reducers_agree[OF h1 h2 h3, of 1] c by auto
  then have m: "parallelWithMutex [2, 0, 1] [5, 3, 10, 22, 25, 7] 3 = Inr (3, 25)"
    using reducers_agree[OF h1 h2 h3, of 1] by simp
  show ?thesis using h1 h2 h3 c l m by blast
qed

text \<open>
  A dataset of \<open>2147483648\<close> elements, the first one 5 and the others 1, with one
  thread: \<^verbatim>\<open>data.size()\<close> converted to \<^verbatim>\<open>int\<close> is \<open>INT_MIN\<close>, the only section is
  \<open>[0, INT_MIN)\<close> and its loop does not run. The parallel reducers return
  \<open>(0, INT_MIN)\<close>, the linear one \<open>(1, 5)\<close>: the reducers do not agree on every dataset.
\<close>

theorem reducers_disagree_on_long_dataset:
  "linearExecution (5 # replicate 2147483647 1) = Inr (1, 5)
   \<and> parallelWithMutex [0] (5 # replicate 2147483647 1) 1 = Inr (0, INT_MIN)
   \<and> parallelWithCAS [(0, False), (0, False), (0, False)] 0 (5 # replicate 2147483647 1) 1
        = Some (Inr (0, INT_MIN))"
proof -
  have s: "spawn_sections (length (5 # replicate 2147483647 (1::cint))) 1 = Inr [(0, INT_MIN)]"
    by (simp add: spawn_sections_def chunk_size_def size_t_of_int_def int_of_size_t_def
        thread_ids_def section_bounds_def mul_int_def in_int_def INT_MIN_def)
  have i: "section_indices 0 INT_MIN = []"
    by (simp add: section_indices_def sint_INT_MIN)
  have lr: "local_results (5 # replicate 2147483647 1) 1 = Inr [(0, INT_MIN)]"
    unfolding local_results_def s by (simp add: scan_section_def i)
  have 1: "linearExecution (5 # replicate 2147483647 1) = Inr (1, 5)"
    by (simp add: linearExecution_eq div5_def smax_def INT_MIN_def)
  have 2: "parallelWithMutex [0] (5 # replicate 2147483647 1) 1 = Inr (0, INT_MIN)"
    unfolding parallelWithMutex_def lr
    by (simp add: merge_locked_def add_int_def in_int_def)
  have 3: "parallelWithCAS [(0, False), (0, False), (0, False)] 0 (5 # replicate 2147483647 1) 1
        = Some (Inr (0, INT_MIN))"
    unfolding parallelWithCAS_def lr
    by (simp add: run_def init_state_def step_thread_cases joined_def)
  show ?thesis using 1 2 3 by simp
qed

section \<open>The sections cover the dataset\<close>

text \<open>
  Claim C3. For a dataset length \<open>len\<close> of at most \<open>2147483647\<close> and a thread count
  \<open>numThreads \<ge> 1\<close>, the reducers compute \<open>numThreads\<close> sections: section \<open>t\<close> starts at
  \<open>t * (len div numThreads)\<close> and ends at \<open>(t + 1) * (len div numThreads)\<close>, the last one
  at \<open>len\<close> instead; each section ends where the next one starts; the index sets the
  scanning loops visit are pairwise disjoint, and their union is \<open>{0..<len}\<close>.
\<close>

theorem sections_cover:
  assumes "len \<le> 2147483647" "0 < sint numThreads"
  shows "\<exists>secs. spawn_sections len numThreads = Inr secs
           \<and> length secs = nat (sint numThreads)
           \<and> (\<forall>t<length secs.
                 sint (fst (secs ! t)) = int t * (int len div sint numThreads)
                 \<and> sint (snd (secs ! t)) =
                     (if Suc t = length secs then int len
                      else (int t + 1) * (int len div sint numThreads))
                 \<and> sint (fst (secs ! t)) \<le> sint (snd (secs ! t)))
           \<and> (\<forall>t. Suc t < length secs \<longrightarrow> snd (secs ! t) = fst (secs ! Suc t))
           \<and> (\<forall>t<length secs. \<forall>u<length secs. t \<noteq> u \<longrightarrow>
                 set (section_indices (fst (secs ! t)) (snd (secs ! t)))
                   \<inter> set (section_indices (fst (secs ! u)) (snd (secs ! u))) = {})
           \<and> (\<Union>t<length secs. set (section_indices (fst (secs ! t)) (snd (secs ! t))))
                 = {0..<int len}"
proof -
  let ?n = "nat (sint numThreads)"
  let ?b = "bound len ?n"
  let ?g = "\<lambda>t. (word_of_nat (?b t) :: cint, word_of_nat (?b (Suc t)) :: cint)"
  let ?secs = "map ?g [0..<?n]"
  have n: "0 < ?n" using assms(2) by simp
  have nT: "int ?n = sint numThreads" using assms(2) by simp
  have c: "int (len div ?n) = int len div sint numThreads"
    using nT by (simp add: zdiv_int)
  have s: "spawn_sections len numThreads = Inr ?secs" by (rule spawn_sections_eq[OF assms])
  have l: "length ?secs = ?n" by simp
  have nth: "\<And>t. t < ?n \<Longrightarrow> ?secs ! t = ?g t" by simp
  have idx: "\<And>t. t < ?n \<Longrightarrow> set (section_indices (fst (?secs ! t)) (snd (?secs ! t)))
                = int ` {?b t..<?b (Suc t)}"
    using section_indices_bound[OF assms(1) n] by simp
  have p1: "\<forall>t<length ?secs.
                 sint (fst (?secs ! t)) = int t * (int len div sint numThreads)
                 \<and> sint (snd (?secs ! t)) =
                     (if Suc t = length ?secs then int len
                      else (int t + 1) * (int len div sint numThreads))
                 \<and> sint (fst (?secs ! t)) \<le> sint (snd (?secs ! t))"
  proof (intro allI impI)
    fix t assume "t < length ?secs"
    then have t: "t < ?n" by simp
    have 1: "sint (fst (?secs ! t)) = int (?b t)"
      using sint_bound[OF assms(1) n, of t] t by simp
    have 2: "sint (snd (?secs ! t)) = int (?b (Suc t))"
      using sint_bound[OF assms(1) n, of "Suc t"] t by simp
    have 3: "int (?b t) = int t * (int len div sint numThreads)"
      using t c by (simp add: bound_def)
    have 4: "int (?b (Suc t)) = (if Suc t = ?n then int len
                      else (int t + 1) * (int len div sint numThreads))"
      using t c by (simp add: bound_def algebra_simps)
    have 5: "?b t \<le> ?b (Suc t)" using bound_mono[OF n t] .
    show "sint (fst (?secs ! t)) = int t * (int len div sint numThreads)
                 \<and> sint (snd (?secs ! t)) =
                     (if Suc t = length ?secs then int len
                      else (int t + 1) * (int len div sint numThreads))
                 \<and> sint (fst (?secs ! t)) \<le> sint (snd (?secs ! t))"
      using 1 2 3 4 5 l by simp
  qed
  have p2: "\<forall>t. Suc t < length ?secs \<longrightarrow> snd (?secs ! t) = fst (?secs ! Suc t)"
    by simp
  have p3: "\<forall>t<length ?secs. \<forall>u<length ?secs. t \<noteq> u \<longrightarrow>
                 set (section_indices (fst (?secs ! t)) (snd (?secs ! t)))
                   \<inter> set (section_indices (fst (?secs ! u)) (snd (?secs ! u))) = {}"
  proof (intro allI impI)
    fix t u assume "t < length ?secs" "u < length ?secs" "t \<noteq> u"
    then have t: "t < ?n" and u: "u < ?n" and tu: "t \<noteq> u" by simp_all
    have d: "\<And>i j. i < j \<Longrightarrow> j < ?n \<Longrightarrow> {?b i..<?b (Suc i)} \<inter> {?b j..<?b (Suc j)} = {}"
    proof -
      fix i j assume "i < j" "j < ?n"
      then have "?b (Suc i) \<le> ?b j" using bound_mono2[OF n, of j "Suc i" len] by simp
      then show "{?b i..<?b (Suc i)} \<inter> {?b j..<?b (Suc j)} = {}" by auto
    qed
    have "{?b t..<?b (Suc t)} \<inter> {?b u..<?b (Suc u)} = {}"
    proof (cases "t < u")
      case True
      then show ?thesis using d[OF True u] by simp
    next
      case False
      then have "u < t" using tu by simp
      then show ?thesis using d[OF _ t, of u] by (simp add: Int_commute)
    qed
    then have "int ` {?b t..<?b (Suc t)} \<inter> int ` {?b u..<?b (Suc u)} = {}"
      by (simp add: image_Int[symmetric] inj_on_def)
    then show "set (section_indices (fst (?secs ! t)) (snd (?secs ! t)))
                   \<inter> set (section_indices (fst (?secs ! u)) (snd (?secs ! u))) = {}"
      using idx[OF t] idx[OF u] by simp
  qed
  have "(\<Union>t<?n. {?b t..<?b (Suc t)}) = {?b 0..<?b ?n}"
    using bound_mono[OF n] by (intro union_ranges) simp
  moreover have "?b 0 = 0" using n by (simp add: bound_def)
  moreover have "?b ?n = len" by (simp add: bound_def)
  ultimately have u: "(\<Union>t<?n. {?b t..<?b (Suc t)}) = {0..<len}" by simp
  have "(\<Union>t<?n. set (section_indices (fst (?secs ! t)) (snd (?secs ! t))))
          = (\<Union>t<?n. int ` {?b t..<?b (Suc t)})"
    using idx by simp
  also have "\<dots> = int ` (\<Union>t<?n. {?b t..<?b (Suc t)})" by (simp add: image_UN)
  also have "\<dots> = int ` {0..<len}" by (simp only: u)
  also have "\<dots> = {0..<int len}" by (simp add: image_int_atLeastLessThan)
  finally have p4: "(\<Union>t<length ?secs. set (section_indices (fst (?secs ! t)) (snd (?secs ! t))))
          = {0..<int len}" by (simp only: l)
  show ?thesis using s l p1 p2 p3 p4 by blast
qed

text \<open>Six elements and four threads: the sections are \<open>[0,1)\<close>, \<open>[1,2)\<close>, \<open>[2,3)\<close>, \<open>[3,6)\<close>.\<close>

theorem sections_cover_witness:
  "(6::nat) \<le> 2147483647 \<and> 0 < sint (4::cint)
   \<and> spawn_sections 6 4 = Inr [(0, 1), (1, 2), (2, 3), (3, 6)]
   \<and> (\<exists>secs. spawn_sections 6 4 = Inr secs
           \<and> length secs = nat (sint (4::cint))
           \<and> (\<Union>t<length secs. set (section_indices (fst (secs ! t)) (snd (secs ! t))))
                 = {0..<int 6})"
proof -
  have h1: "(6::nat) \<le> 2147483647" by simp
  have h2: "0 < sint (4::cint)" by simp
  have e: "spawn_sections 6 4 = Inr [(0, 1), (1, 2), (2, 3), (3, 6)]" by code_simp
  have "\<exists>secs. spawn_sections 6 4 = Inr secs
           \<and> length secs = nat (sint (4::cint))
           \<and> (\<Union>t<length secs. set (section_indices (fst (secs ! t)) (snd (secs ! t))))
                 = {0..<int 6}"
    using sections_cover[OF h1 h2] by blast
  then show ?thesis using h1 h2 e by blast
qed

text \<open>
  A length of \<open>2147483648\<close> with one thread: \<^verbatim>\<open>data.size()\<close> converted to \<^verbatim>\<open>int\<close> is
  \<open>INT_MIN\<close>; the only section is \<open>[0, INT_MIN)\<close>, its loop visits no index, and its end
  is not the length. The sections do not cover every length.
\<close>

theorem sections_miss_long_dataset:
  "spawn_sections 2147483648 1 = Inr [(0, INT_MIN)]
   \<and> set (section_indices 0 INT_MIN) = {}
   \<and> sint INT_MIN \<noteq> int 2147483648
   \<and> {0..<int 2147483648} \<noteq> {}"
proof -
  have s: "spawn_sections 2147483648 1 = Inr [(0, INT_MIN)]"
    by (simp add: spawn_sections_def chunk_size_def size_t_of_int_def int_of_size_t_def
        thread_ids_def section_bounds_def mul_int_def in_int_def INT_MIN_def)
  have i: "set (section_indices 0 INT_MIN) = {}"
    by (simp add: section_indices_def sint_INT_MIN)
  show ?thesis using s i by (simp add: sint_INT_MIN)
qed

section \<open>No update of the shared maximum is lost\<close>

text \<open>
  Claim C5. Let the threads of \<^verbatim>\<open>parallelWithCAS\<close> have the local results \<open>locals\<close>, at
  least one thread. In every interleaving of their atomic operations that runs all of
  them to their end (with any number of spurious failures), the shared maximum is then
  the greatest of the threads' local maxima; and such an interleaving exists.
\<close>

theorem cas_max_not_lost:
  assumes "locals \<noteq> []"
  shows "(\<forall>sched. joined (run locals sched (init_state locals n)) \<longrightarrow>
            atomicMax (run locals sched (init_state locals n)) \<in> snd ` set locals
            \<and> sint (atomicMax (run locals sched (init_state locals n)))
                = Max (sint ` snd ` set locals))
         \<and> (\<exists>sched. joined (run locals sched (init_state locals n)))"
proof -
  have 1: "\<forall>sched. joined (run locals sched (init_state locals n)) \<longrightarrow>
            atomicMax (run locals sched (init_state locals n)) \<in> snd ` set locals
            \<and> sint (atomicMax (run locals sched (init_state locals n)))
                = Max (sint ` snd ` set locals)"
  proof (intro allI impI)
    fix sched
    let ?m = "atomicMax (run locals sched (init_state locals n))"
    assume "joined (run locals sched (init_state locals n))"
    then have g: "greatest_of (insert INT_MIN (snd ` set locals)) ?m" by (rule joined_result(2))
    then have ub: "\<And>v. v \<in> snd ` set locals \<Longrightarrow> sint v \<le> sint ?m"
      unfolding greatest_of_def by blast
    obtain r where r: "r \<in> set locals" using assms by (cases locals) auto
    have mem: "?m \<in> snd ` set locals"
    proof (cases "?m = INT_MIN")
      case True
      have "sint (snd r) \<le> sint INT_MIN" using ub[of "snd r"] r True by simp
      then have "sint (snd r) = sint INT_MIN" using sint_ge_INT_MIN[of "snd r"] by simp
      then have "snd r = ?m" using True by (simp add: sint_eq_iff)
      then have "?m = snd r" by simp
      then show ?thesis using r by (simp only: image_eqI)
    next
      case False
      then show ?thesis using g by (simp add: greatest_of_def)
    qed
    have "Max (sint ` snd ` set locals) = sint ?m"
    proof (rule Max_eqI)
      show "finite (sint ` snd ` set locals)" by simp
      show "\<And>y. y \<in> sint ` snd ` set locals \<Longrightarrow> y \<le> sint ?m" using ub by auto
      show "sint ?m \<in> sint ` snd ` set locals" using mem by (rule imageI)
    qed
    then show "?m \<in> snd ` set locals \<and> sint ?m = Max (sint ` snd ` set locals)"
      using mem by simp
  qed
  have 2: "\<exists>sched. joined (run locals sched (init_state locals n))"
    using joined_one_by_one[of locals n] by blast
  show ?thesis using 1 2 by simp
qed

text \<open>
  Four threads with the local maxima 10, 10, 25 and \<open>INT_MIN\<close>, all loading the shared
  maximum before any exchange: thread 1 installs 10, the exchanges of threads 0 and 2
  fail, thread 0 and thread 3 leave without an exchange, thread 2 installs 25 after a
  spurious failure.
\<close>

theorem cas_max_not_lost_witness:
  "([(1, 10), (1, 10), (2, 25), (0, INT_MIN)] :: (cint \<times> cint) list) \<noteq> []
   \<and> joined (run [(1, 10), (1, 10), (2, 25), (0, INT_MIN)]
        [(0, False), (1, False), (2, False), (3, False), (0, False), (1, False), (2, False),
         (3, False), (1, False), (0, False), (2, False), (3, False), (0, False), (0, False),
         (2, False), (2, True), (2, False), (2, False)]
        (init_state [(1, 10), (1, 10), (2, 25), (0, INT_MIN)] 1))
   \<and> atomicMax (run [(1, 10), (1, 10), (2, 25), (0, INT_MIN)]
        [(0, False), (1, False), (2, False), (3, False), (0, False), (1, False), (2, False),
         (3, False), (1, False), (0, False), (2, False), (3, False), (0, False), (0, False),
         (2, False), (2, True), (2, False), (2, False)]
        (init_state [(1, 10), (1, 10), (2, 25), (0, INT_MIN)] 1)) = 25
   \<and> Max (sint ` snd ` set ([(1, 10), (1, 10), (2, 25), (0, INT_MIN)] :: (cint \<times> cint) list)) = 25"
proof -
  let ?locals = "[(1, 10), (1, 10), (2, 25), (0, INT_MIN)] :: (cint \<times> cint) list"
  let ?sched = "[(0, False), (1, False), (2, False), (3, False), (0, False), (1, False), (2, False),
         (3, False), (1, False), (0, False), (2, False), (3, False), (0, False), (0, False),
         (2, False), (2, True), (2, False), (2, False)]"
  have h: "?locals \<noteq> []" by simp
  have j: "joined (run ?locals ?sched (init_state ?locals 1))" by code_simp
  have a: "atomicMax (run ?locals ?sched (init_state ?locals 1)) = 25" by code_simp
  have t: "\<forall>sched. joined (run ?locals sched (init_state ?locals 1)) \<longrightarrow>
            atomicMax (run ?locals sched (init_state ?locals 1)) \<in> snd ` set ?locals
            \<and> sint (atomicMax (run ?locals sched (init_state ?locals 1)))
                = Max (sint ` snd ` set ?locals)"
    using cas_max_not_lost[OF h, of 1] by (rule conjunct1)
  have "sint (atomicMax (run ?locals ?sched (init_state ?locals 1)))
          = Max (sint ` snd ` set ?locals)"
    using t[rule_format, OF j] by (rule conjunct2)
  then have "Max (sint ` snd ` set ?locals) = sint (25 :: cint)" by (simp only: a)
  then have m: "Max (sint ` snd ` set ?locals) = 25" by simp
  show ?thesis
    apply (intro conjI)
       apply (rule h)
      apply (rule j)
     apply (rule a)
    apply (rule m)
    done
qed

end
